theory Spec2Isabelle
  imports Complex_Main "HOL-Library.List_Lexorder"
begin

section \<open>The cover of kepler-mapper (src/kmapper/cover.py)\<close>

text \<open>
  The class \<open>Cover\<close> cuts the lens space into overlapping hypercubes. \<open>define_bins\<close>
  computes the geometry from a data table and stores it in the object; \<open>find_entries\<close>
  reads the stored geometry and slices the table for one cube.

  Numbers: numpy's float64 values are modelled as exact reals. The model has no rounding,
  no overflow, no NaN and no infinity other than the marker \<open>Unbounded\<close> that \<open>limits\<close>
  may hold. Where the source leaves the finite numbers (a cube count of zero divides by
  zero, which numpy answers with inf or nan and a RuntimeWarning), the model stops with the
  outcome \<open>NonFinite\<close>, which is not a Python exception.

  What carries over to the source: the shapes, the errors, the warnings, the coordinates,
  the minima, maxima and resolved bounds (which float64 computes without rounding), and
  every statement that holds whatever the values of \<open>base_dist\<close>, \<open>overlap_dist\<close>,
  \<open>chunk_dist\<close> and the unclipped bounds are. A statement that needs the exact value of
  one of these holds of the scheme, not of the float64 code; the section on exact
  arithmetic collects those.
\<close>

subsection \<open>Data\<close>

text \<open>A numpy array of shape \<open>(len rows, ncols)\<close>; column 0 holds the row identifier.\<close>

record table =
  ncols :: nat
  rows :: "real list list"

definition rect :: "table \<Rightarrow> bool" where
  "rect t = list_all (\<lambda>r. length r = ncols t) (rows t)"

text \<open>
  An entry of \<open>limits\<close>: a number, or \<open>np.float('inf')\<close>, the marker of a bound to derive
  from the data (lines 117 and 118 compare with it; the model follows a numpy that still
  has \<open>np.float\<close>).
\<close>

datatype lim = Unbounded | Val real

text \<open>\<open>n_cubes\<close> is an int or a list of ints (the source tests \<open>type(self.n_cubes) is not list\<close>).\<close>

datatype cubes = IntCubes int | ListCubes "int list"

datatype error =
    ValueError
  | AssertionError nat nat
  | AttributeError
  | IndexError
  | NonFinite

text \<open>
  \<open>CoverageWarning\<close> carries the four arrays that the message of the source prints:
  actual minima, input minima, actual maxima, input maxima.
\<close>

datatype warning =
    DeprecationWarning
  | CoverageWarning "real list" "real list" "real list" "real list"

text \<open>
  The attributes of a \<open>Cover\<close> object. \<open>__init__\<close> sets the first three; the others exist
  only once \<open>define_bins\<close> has assigned them (\<open>None\<close>: the attribute is missing).
  \<open>d'\<close> and \<open>end'\<close> are \<open>self.d\<close> and \<open>self.end\<close>.
\<close>

record cover =
  n_cubes :: cubes
  perc_overlap :: real
  limits :: "(lim \<times> lim) list option"
  base_dist :: "real list option"
  overlap_dist :: "real list option"
  chunk_dist :: "real list option"
  d' :: "real list option"
  end' :: "real list option"
  di :: "nat list option"
  nr_dimensions :: "nat option"

subsection \<open>numpy: broadcasting and reductions\<close>

text \<open>Two one-dimensional shapes broadcast when they are equal or one of them is 1.\<close>

definition bshape :: "nat \<Rightarrow> nat \<Rightarrow> error + nat" where
  "bshape a b =
     (if a = b then Inr a
      else if a = 1 then Inr b
      else if b = 1 then Inr a
      else Inl ValueError)"

definition stretch :: "nat \<Rightarrow> 'a list \<Rightarrow> 'a list" where
  "stretch n xs = (if length xs = n then xs else case xs of [x] \<Rightarrow> replicate n x | _ \<Rightarrow> xs)"

definition broadcast :: "('a \<Rightarrow> 'b \<Rightarrow> 'c) \<Rightarrow> 'a list \<Rightarrow> 'b list \<Rightarrow> error + 'c list" where
  "broadcast f xs ys =
     (case bshape (length xs) (length ys) of
        Inl e \<Rightarrow> Inl e
      | Inr n \<Rightarrow> Inr (map2 f (stretch n xs) (stretch n ys)))"

text \<open>\<open>a[:, j] = v\<close> for a column of length \<open>m\<close>: \<open>v\<close> has length \<open>m\<close> or 1.\<close>

definition assign_column :: "nat \<Rightarrow> 'a list \<Rightarrow> error + 'a list" where
  "assign_column m v =
     (if length v = m \<or> length v = 1 then Inr (stretch m v) else Inl ValueError)"

text \<open>
  \<open>np.min(a, axis=0)\<close> and \<open>np.max(a, axis=0)\<close> of a table with \<open>k\<close> columns: the reduction
  over no rows raises ValueError.
\<close>

definition column :: "nat \<Rightarrow> real list list \<Rightarrow> real list" where
  "column j rs = map (\<lambda>r. r ! j) rs"

definition np_min :: "nat \<Rightarrow> real list list \<Rightarrow> error + real list" where
  "np_min k rs =
     (if rs = [] then Inl ValueError
      else Inr (map (\<lambda>j. Min (set (column j rs))) [0..<k]))"

definition np_max :: "nat \<Rightarrow> real list list \<Rightarrow> error + real list" where
  "np_max k rs =
     (if rs = [] then Inl ValueError
      else Inr (map (\<lambda>j. Max (set (column j rs))) [0..<k]))"

text \<open>\<open>np.clip(x, a_min, a_max)\<close> is \<open>minimum(maximum(x, a_min), a_max)\<close>, all three broadcast.\<close>

definition clip :: "real \<Rightarrow> real \<Rightarrow> real \<Rightarrow> real" where
  "clip x a_min a_max = min (max x a_min) a_max"

definition np_clip :: "real list \<Rightarrow> real list \<Rightarrow> real list \<Rightarrow> error + real list" where
  "np_clip xs a_min a_max =
     (case broadcast max xs a_min of
        Inl e \<Rightarrow> Inl e
      | Inr ys \<Rightarrow> broadcast min ys a_max)"

subsection \<open>\<open>Cover.__init__\<close>\<close>

text \<open>Python's truth value of an int (nonzero) and of a list (non-empty).\<close>

fun truthy :: "cubes \<Rightarrow> bool" where
  "truthy (IntCubes n) = (n \<noteq> 0)"
| "truthy (ListCubes ns) = (ns \<noteq> [])"

text \<open>The object as \<open>__init__\<close> leaves it: three attributes, no geometry.\<close>

definition new_cover :: "cubes \<Rightarrow> real \<Rightarrow> (lim \<times> lim) list option \<Rightarrow> cover" where
  "new_cover n p l =
     \<lparr> n_cubes = n, perc_overlap = p, limits = l,
       base_dist = None, overlap_dist = None, chunk_dist = None,
       d' = None, end' = None, di = None, nr_dimensions = None \<rparr>"

text \<open>
  The parameters in the order of the source: \<open>n_cubes\<close>, \<open>perc_overlap\<close>, \<open>limits\<close>,
  \<open>nr_cubes\<close>, \<open>overlap_perc\<close>. \<open>limits\<close> is a list of pairs, so of shape \<open>(m, 2)\<close>, but for
  the empty list: \<open>np.array([])\<close> has shape \<open>(0,)\<close> and \<open>shape[1]\<close> raises IndexError.
  The result is the warnings emitted and the object, or the error raised.
\<close>

definition init :: "cubes \<Rightarrow> real \<Rightarrow> (lim \<times> lim) list option \<Rightarrow> cubes option \<Rightarrow> real option
    \<Rightarrow> warning list \<times> (error + cover)" where
  "init n_cubes0 perc_overlap0 limits0 nr_cubes overlap_perc =
     (let n = (case nr_cubes of
                 None \<Rightarrow> n_cubes0
               | Some c \<Rightarrow> if truthy c then c else n_cubes0);
          p = (case overlap_perc of
                 None \<Rightarrow> perc_overlap0
               | Some q \<Rightarrow> if q \<noteq> 0 then q else perc_overlap0);
          ws = (if overlap_perc \<noteq> None \<or> nr_cubes \<noteq> None then [DeprecationWarning] else [])
      in if limits0 = Some [] then (ws, Inl IndexError)
         else (ws, Inr (new_cover n p limits0)))"

text \<open>The defaults of the signature: \<open>n_cubes=10\<close>, \<open>perc_overlap=0.2\<close>.\<close>

definition default_n_cubes :: cubes where
  "default_n_cubes = IntCubes 10"

definition default_perc_overlap :: real where
  "default_perc_overlap = 2 / 10"

subsection \<open>\<open>Cover.define_bins\<close>\<close>

text \<open>
  Lines 105 to 138: the bounds. Both branches reduce the lens columns first, which raises
  on a table without rows. With \<open>limits\<close>, the minima and maxima are written into the columns
  of \<open>limits_array\<close>, every entry where \<open>limits\<close> is not the marker is zeroed, the markers
  in \<open>self.limits\<close> are overwritten with 0 in place, and the two arrays are added. The warning
  is emitted unless all minima are at or above the lower bounds or all maxima are at or
  below the upper bounds.
  The result is the object, the warnings, the lower and the upper bounds.
\<close>

fun unmark :: "lim \<Rightarrow> lim" where
  "unmark Unbounded = Val 0"
| "unmark (Val x) = Val x"

fun resolve :: "lim \<Rightarrow> real \<Rightarrow> real" where
  "resolve Unbounded c = 0 + c"
| "resolve (Val x) c = x + 0"

definition bounds_of :: "cover \<Rightarrow> table
    \<Rightarrow> error + (cover \<times> warning list \<times> real list \<times> real list)" where
  "bounds_of self data =
     (let indexless_data = map (drop 1) (rows data);
          k = ncols data - 1
      in case np_min k indexless_data of
           Inl e \<Rightarrow> Inl e
         | Inr mins \<Rightarrow>
        (case np_max k indexless_data of
           Inl e \<Rightarrow> Inl e
         | Inr maxs \<Rightarrow>
        (case limits self of
           None \<Rightarrow> Inr (self, [], mins, maxs)
         | Some lims \<Rightarrow>
            (case assign_column (length lims) mins of
               Inl e \<Rightarrow> Inl e
             | Inr col0 \<Rightarrow>
            (case assign_column (length lims) maxs of
               Inl e \<Rightarrow> Inl e
             | Inr col1 \<Rightarrow>
               let lower = map2 resolve (map fst lims) col0;
                   upper = map2 resolve (map snd lims) col1;
                   self1 = self \<lparr> limits := Some (map (\<lambda>(a, b). (unmark a, unmark b)) lims) \<rparr>;
                   m = length lims;
                   covered = (list_all2 (\<ge>) (stretch m mins) lower
                              \<or> list_all2 (\<le>) (stretch m maxs) upper)
               in Inr (self1,
                       if \<not> covered then [CoverageWarning mins lower maxs upper] else [],
                       lower, upper))))))"

text \<open>
  Line 141: \<open>(bounds[1] - bounds[0]) / self.n_cubes\<close>. An int divides every entry; a list
  is broadcast against the differences. A zero divisor leaves the finite numbers.
\<close>

definition divide_cubes :: "real list \<Rightarrow> cubes \<Rightarrow> error + real list" where
  "divide_cubes diff nc =
     (case nc of
        IntCubes n \<Rightarrow>
          if diff \<noteq> [] \<and> n = 0 then Inl NonFinite
          else Inr (map (\<lambda>x. x / real_of_int n) diff)
      | ListCubes ns \<Rightarrow>
          (case bshape (length diff) (length ns) of
             Inl e \<Rightarrow> Inl e
           | Inr k \<Rightarrow>
               if k \<noteq> 0 \<and> 0 \<in> set ns then Inl NonFinite
               else Inr (map2 (\<lambda>x n. x / real_of_int n) (stretch k diff) (stretch k ns))))"

text \<open>
  Lines 160 to 168: the cube count of every dimension. A list of another length than the
  number of lens columns fails the assertion, whose message gives both lengths.
\<close>

definition cubes_of :: "cubes \<Rightarrow> nat \<Rightarrow> error + int list" where
  "cubes_of nc nr =
     (case nc of
        IntCubes n \<Rightarrow> Inr (replicate nr n)
      | ListCubes ns \<Rightarrow> if length ns = nr then Inr ns else Inl (AssertionError (length ns) nr))"

text \<open>Line 170: \<open>product(*(range(i) for i in cubes))\<close>; the last position runs fastest.\<close>

definition py_range :: "int \<Rightarrow> int list" where
  "py_range i = map int [0..<nat i]"

definition coordinates_of :: "int list \<Rightarrow> int list list" where
  "coordinates_of cs = product_lists (map py_range cs)"

text \<open>
  The whole method. The result is the object as the call leaves it (also when the call
  raises), the warnings emitted, and the list returned or the error raised.
\<close>

definition define_bins :: "cover \<Rightarrow> table \<Rightarrow> cover \<times> warning list \<times> (error + int list list)" where
  "define_bins self data =
     (case bounds_of self data of
        Inl e \<Rightarrow> (self, [], Inl e)
      | Inr (self1, ws, lower, upper) \<Rightarrow>
     (case divide_cubes (map2 (-) upper lower) (n_cubes self1) of
        Inl e \<Rightarrow> (self1, ws, Inl e)
      | Inr base \<Rightarrow>
          let overlap = map (\<lambda>b. perc_overlap self1 * b) base;
              chunk = map2 (\<lambda>b ov. b + ov * 2) base overlap;
              idx = [1..<ncols data];
              self2 = self1 \<lparr> base_dist := Some base, overlap_dist := Some overlap,
                              chunk_dist := Some chunk, d' := Some lower, end' := Some upper,
                              di := Some idx, nr_dimensions := Some (length idx) \<rparr>
          in (case cubes_of (n_cubes self2) (length idx) of
                Inl e \<Rightarrow> (self2, ws, Inl e)
              | Inr cs \<Rightarrow> (self2, ws, Inr (coordinates_of cs)))))"

subsection \<open>\<open>Cover.find_entries\<close>\<close>

text \<open>Lines 194 and 195: \<open>self.d + (cube * base) - overlap\<close>, and that plus \<open>chunk\<close>.\<close>

definition unclipped :: "real list \<Rightarrow> real list \<Rightarrow> real list \<Rightarrow> real list \<Rightarrow> int list
    \<Rightarrow> error + (real list \<times> real list)" where
  "unclipped lo base overlap chunk cube =
     (case broadcast (*) (map real_of_int cube) base of
        Inl e \<Rightarrow> Inl e
      | Inr cb \<Rightarrow>
     (case broadcast (+) lo cb of
        Inl e \<Rightarrow> Inl e
      | Inr dcb \<Rightarrow>
     (case broadcast (-) dcb overlap of
        Inl e \<Rightarrow> Inl e
      | Inr lower_bound_unclipped \<Rightarrow>
     (case broadcast (+) lower_bound_unclipped chunk of
        Inl e \<Rightarrow> Inl e
      | Inr upper_bound_unclipped \<Rightarrow> Inr (lower_bound_unclipped, upper_bound_unclipped)))))"

text \<open>
  Lines 202 to 204. \<open>data[:, self.di]\<close> raises IndexError when an index is not a column of
  \<open>data\<close>, and also when \<open>self.di\<close> is empty: \<open>np.array(range(1, 1))\<close> is an array of
  floats, which numpy refuses as an index. The two comparisons broadcast the selected
  columns against the bounds, \<open>&\<close> broadcasts their results, and a row is kept when no entry
  of its row of \<open>entries\<close> is False. The rows kept are whole rows of \<open>data\<close>, in its order.
\<close>

definition entries :: "nat list \<Rightarrow> real list \<Rightarrow> real list \<Rightarrow> nat \<Rightarrow> nat \<Rightarrow> nat
    \<Rightarrow> real list \<Rightarrow> bool list" where
  "entries idx lower_bound upper_bound w1 w2 w r =
     map2 (\<and>)
       (stretch w (map2 (\<ge>) (stretch w1 (map (\<lambda>i. r ! i) idx)) (stretch w1 lower_bound)))
       (stretch w (map2 (\<le>) (stretch w2 (map (\<lambda>i. r ! i) idx)) (stretch w2 upper_bound)))"

definition slice :: "nat list \<Rightarrow> real list \<Rightarrow> real list \<Rightarrow> table \<Rightarrow> error + table" where
  "slice idx lower_bound upper_bound data =
     (if idx = [] \<or> (\<exists>i \<in> set idx. ncols data \<le> i) then Inl IndexError
      else
       (case bshape (length idx) (length lower_bound) of
          Inl e \<Rightarrow> Inl e
        | Inr w1 \<Rightarrow>
       (case bshape (length idx) (length upper_bound) of
          Inl e \<Rightarrow> Inl e
        | Inr w2 \<Rightarrow>
       (case bshape w1 w2 of
          Inl e \<Rightarrow> Inl e
        | Inr w \<Rightarrow>
            Inr (data \<lparr> rows :=
                   filter (\<lambda>r. \<not> list_ex (\<lambda>e. e = False)
                                    (entries idx lower_bound upper_bound w1 w2 w r))
                          (rows data) \<rparr>)))))"

text \<open>
  The method reads the attributes in the order of the source; a missing one raises
  AttributeError at the place where it is read.
\<close>

definition find_entries :: "cover \<Rightarrow> table \<Rightarrow> int list \<Rightarrow> error + table" where
  "find_entries self data cube =
     (case base_dist self of None \<Rightarrow> Inl AttributeError | Some base \<Rightarrow>
     (case overlap_dist self of None \<Rightarrow> Inl AttributeError | Some overlap \<Rightarrow>
     (case chunk_dist self of None \<Rightarrow> Inl AttributeError | Some chunk \<Rightarrow>
     (case d' self of None \<Rightarrow> Inl AttributeError | Some lo \<Rightarrow>
     (case unclipped lo base overlap chunk cube of
        Inl e \<Rightarrow> Inl e
      | Inr (lower_bound_unclipped, upper_bound_unclipped) \<Rightarrow>
     (case end' self of None \<Rightarrow> Inl AttributeError | Some hi \<Rightarrow>
     (case np_clip lower_bound_unclipped lo hi of
        Inl e \<Rightarrow> Inl e
      | Inr lower_bound \<Rightarrow>
     (case np_clip upper_bound_unclipped lo hi of
        Inl e \<Rightarrow> Inl e
      | Inr upper_bound \<Rightarrow>
     (case di self of None \<Rightarrow> Inl AttributeError | Some idx \<Rightarrow>
        slice idx lower_bound upper_bound data)))))))))"

subsection \<open>The words of the specification\<close>

text \<open>
  The invariant of the configuration: \<open>limits\<close>, when present, has one pair for every lens
  dimension (the number of columns less the identifier column).
\<close>

definition wf_limits :: "cover \<Rightarrow> table \<Rightarrow> bool" where
  "wf_limits self data =
     (case limits self of None \<Rightarrow> True | Some lims \<Rightarrow> length lims = ncols data - 1)"

text \<open>The data's minimum and maximum on every lens dimension.\<close>

definition minima :: "table \<Rightarrow> real list" where
  "minima data = map (\<lambda>j. Min (set (column (Suc j) (rows data)))) [0..<ncols data - 1]"

definition maxima :: "table \<Rightarrow> real list" where
  "maxima data = map (\<lambda>j. Max (set (column (Suc j) (rows data)))) [0..<ncols data - 1]"

text \<open>
  The resolved bounds: the data's minimum and maximum without \<open>limits\<close>; with \<open>limits\<close>,
  the configured value of every side but the unbounded ones, which take the data's.
\<close>

definition resolved_lower :: "cover \<Rightarrow> table \<Rightarrow> real list" where
  "resolved_lower self data =
     (case limits self of
        None \<Rightarrow> minima data
      | Some lims \<Rightarrow> map2 (\<lambda>l c. case l of Unbounded \<Rightarrow> c | Val x \<Rightarrow> x) (map fst lims) (minima data))"

definition resolved_upper :: "cover \<Rightarrow> table \<Rightarrow> real list" where
  "resolved_upper self data =
     (case limits self of
        None \<Rightarrow> maxima data
      | Some lims \<Rightarrow> map2 (\<lambda>l c. case l of Unbounded \<Rightarrow> c | Val x \<Rightarrow> x) (map snd lims) (maxima data))"

text \<open>
  The bin of a coordinate, dimension by dimension: the unclipped lower bound is the lower
  bound of the range plus coordinate times base width less the overlap width, the unclipped
  upper bound is that plus the chunk width, and both are clipped to the range.
\<close>

definition clipped_lower :: "real list \<Rightarrow> real list \<Rightarrow> real list \<Rightarrow> real list \<Rightarrow> int list
    \<Rightarrow> nat \<Rightarrow> real" where
  "clipped_lower lo hi base overlap cube j =
     clip (lo ! j + real_of_int (cube ! j) * base ! j - overlap ! j) (lo ! j) (hi ! j)"

definition clipped_upper :: "real list \<Rightarrow> real list \<Rightarrow> real list \<Rightarrow> real list \<Rightarrow> real list
    \<Rightarrow> int list \<Rightarrow> nat \<Rightarrow> real" where
  "clipped_upper lo hi base overlap chunk cube j =
     clip (lo ! j + real_of_int (cube ! j) * base ! j - overlap ! j + chunk ! j) (lo ! j) (hi ! j)"

text \<open>
  A row is in the bin when its lens coordinate (column \<open>j + 1\<close> of the row) lies between
  the clipped bounds, both included, on every dimension \<open>j\<close>.
\<close>

definition in_bin :: "real list \<Rightarrow> real list \<Rightarrow> real list \<Rightarrow> real list \<Rightarrow> real list
    \<Rightarrow> int list \<Rightarrow> real list \<Rightarrow> bool" where
  "in_bin lo hi base overlap chunk cube r =
     (\<forall>j < length cube.
        clipped_lower lo hi base overlap cube j \<le> r ! Suc j
        \<and> r ! Suc j \<le> clipped_upper lo hi base overlap chunk cube j)"

subsection \<open>Example inputs\<close>

text \<open>A table with two lens columns and per-dimension counts \<open>[2, 3]\<close>.\<close>

definition grid_table :: table where
  "grid_table = \<lparr> ncols = 3, rows = [[0, 0, 0], [1, 1, 1]] \<rparr>"


text \<open>
  A table with one lens column, cut into two cubes that overlap by half a base width.
\<close>

definition line_table :: table where
  "line_table = \<lparr> ncols = 2, rows = [[0, 0], [1, 1], [2, 1 / 2]] \<rparr>"

definition line_cover :: cover where
  "line_cover = new_cover (IntCubes 2) (1 / 2) None"

definition line_bins :: cover where
  "line_bins = line_cover \<lparr> base_dist := Some [1 / 2], overlap_dist := Some [1 / 4],
     chunk_dist := Some [1], d' := Some [0], end' := Some [1], di := Some [1],
     nr_dimensions := Some 1 \<rparr>"

text \<open>
  One cube and \<open>limits\<close> that end at a half, below the largest lens value of the table.
\<close>

definition narrow_table :: table where
  "narrow_table = \<lparr> ncols = 2, rows = [[0, 0], [1, 1]] \<rparr>"



text \<open>
  \<open>limits\<close> whose upper side is the marker, and the object after the first and after the
  second call of \<open>define_bins\<close> on the same table.
\<close>

definition marker_table :: table where
  "marker_table = \<lparr> ncols = 2, rows = [[0, 1 / 10], [1, 9 / 10]] \<rparr>"

definition marker_cover :: cover where
  "marker_cover = new_cover (IntCubes 2) (1 / 2) (Some [(Val 0, Unbounded)])"

definition marker_first :: cover where
  "marker_first = marker_cover \<lparr> limits := Some [(Val 0, Val 0)],
     base_dist := Some [9 / 20], overlap_dist := Some [9 / 40], chunk_dist := Some [9 / 10],
     d' := Some [0], end' := Some [9 / 10], di := Some [1], nr_dimensions := Some 1 \<rparr>"

definition marker_second :: cover where
  "marker_second = marker_cover \<lparr> limits := Some [(Val 0, Val 0)],
     base_dist := Some [0], overlap_dist := Some [0], chunk_dist := Some [0],
     d' := Some [0], end' := Some [0], di := Some [1], nr_dimensions := Some 1 \<rparr>"

text \<open>\<open>limits\<close> that start at a half, above the smallest lens value of the table.\<close>

definition low_cover :: cover where
  "low_cover = new_cover (IntCubes 2) (1 / 2) (Some [(Val (1 / 2), Val 2)])"

definition low_bins :: cover where
  "low_bins = low_cover \<lparr> base_dist := Some [3 / 4], overlap_dist := Some [3 / 8],
     chunk_dist := Some [3 / 2], d' := Some [1 / 2], end' := Some [2], di := Some [1],
     nr_dimensions := Some 1 \<rparr>"

text \<open>Three cube counts, for tables with two lens columns and with one.\<close>

definition three_cover :: cover where
  "three_cover = new_cover (ListCubes [2, 3, 4]) (1 / 2) None"

definition three_bins :: cover where
  "three_bins = three_cover \<lparr> base_dist := Some [1 / 2, 1 / 3, 1 / 4],
     overlap_dist := Some [1 / 4, 1 / 6, 1 / 8], chunk_dist := Some [1, 2 / 3, 1 / 2],
     d' := Some [0], end' := Some [1], di := Some [1], nr_dimensions := Some 1 \<rparr>"

section \<open>Lemmas\<close>

subsection \<open>Arrays of one shape\<close>

lemma bshape_same: "bshape n n = Inr n"
  by (simp add: bshape_def)

lemma stretch_same: "length xs = n \<Longrightarrow> stretch n xs = xs"
  by (simp add: stretch_def)

lemma broadcast_same:
  "length xs = length ys \<Longrightarrow> broadcast f xs ys = Inr (map2 f xs ys)"
  by (simp add: broadcast_def bshape_same stretch_same)

lemma np_clip_same:
  assumes "length xs = n" "length lo = n" "length hi = n"
  shows "np_clip xs lo hi = Inr (map (\<lambda>j. clip (xs ! j) (lo ! j) (hi ! j)) [0..<n])"
proof -
  have "map2 min (map2 max xs lo) hi = map (\<lambda>j. clip (xs ! j) (lo ! j) (hi ! j)) [0..<n]"
    using assms by (intro nth_equalityI) (simp_all add: clip_def)
  then show ?thesis
    using assms by (simp add: np_clip_def broadcast_same)
qed

lemma unclipped_same:
  assumes "length lo = n" "length base = n" "length overlap = n" "length chunk = n"
    and "length cube = n"
  shows "unclipped lo base overlap chunk cube =
    Inr (map (\<lambda>j. lo ! j + real_of_int (cube ! j) * base ! j - overlap ! j) [0..<n],
         map (\<lambda>j. lo ! j + real_of_int (cube ! j) * base ! j - overlap ! j + chunk ! j) [0..<n])"
proof -
  let ?cb = "map2 (*) (map real_of_int cube) base"
  let ?dcb = "map2 (+) lo ?cb"
  let ?l = "map2 (-) ?dcb overlap"
  let ?u = "map2 (+) ?l chunk"
  have 1: "broadcast (*) (map real_of_int cube) base = Inr ?cb"
    by (rule broadcast_same) (simp add: assms)
  have 2: "broadcast (+) lo ?cb = Inr ?dcb"
    by (rule broadcast_same) (simp add: assms)
  have 3: "broadcast (-) ?dcb overlap = Inr ?l"
    by (rule broadcast_same) (simp add: assms)
  have 4: "broadcast (+) ?l chunk = Inr ?u"
    by (rule broadcast_same) (simp add: assms)
  have l: "?l = map (\<lambda>j. lo ! j + real_of_int (cube ! j) * base ! j - overlap ! j) [0..<n]"
    by (rule nth_equalityI) (simp_all add: assms)
  have u: "?u = map (\<lambda>j. lo ! j + real_of_int (cube ! j) * base ! j - overlap ! j + chunk ! j) [0..<n]"
    by (rule nth_equalityI) (simp_all add: assms)
  have "unclipped lo base overlap chunk cube = Inr (?l, ?u)"
    unfolding unclipped_def by (simp only: 1 2 3 4 sum.case)
  then show ?thesis
    by (simp only: u, simp only: l)
qed

lemma entries_same:
  assumes "length lower = n" "length upper = n"
  shows "(\<not> list_ex (\<lambda>e. e = False) (entries [1..<Suc n] lower upper n n n r)) =
      (\<forall>j < n. lower ! j \<le> r ! Suc j \<and> r ! Suc j \<le> upper ! j)"
proof -
  let ?sel = "map (\<lambda>i. r ! i) [1..<Suc n]"
  have len: "length ?sel = n"
    by simp
  have sel: "?sel ! j = r ! Suc j" if "j < n" for j
    using that by (simp del: upt_Suc)
  have "entries [1..<Suc n] lower upper n n n r =
      map2 (\<and>) (map2 (\<ge>) ?sel lower) (map2 (\<le>) ?sel upper)"
    unfolding entries_def by (simp add: stretch_same assms del: upt_Suc)
  also have "\<dots> = map (\<lambda>j. lower ! j \<le> r ! Suc j \<and> r ! Suc j \<le> upper ! j) [0..<n]"
    by (rule nth_equalityI) (simp_all add: assms sel del: upt_Suc)
  finally show ?thesis
    by (auto simp: list_ex_iff)
qed

lemma slice_same:
  assumes "0 < n" "ncols data = Suc n" "length lower = n" "length upper = n"
  shows "slice [1..<Suc n] lower upper data =
    Inr (data \<lparr> rows := filter (\<lambda>r. \<forall>j < n. lower ! j \<le> r ! Suc j \<and> r ! Suc j \<le> upper ! j)
                                 (rows data) \<rparr>)"
proof -
  have i: "\<not> ([1..<Suc n] = [] \<or> (\<exists>i \<in> set [1..<Suc n]. ncols data \<le> i))"
    using assms by auto
  have b: "bshape (length [1..<Suc n]) (length lower) = Inr n"
      "bshape (length [1..<Suc n]) (length upper) = Inr n"
    using assms by (simp_all add: bshape_same)
  show ?thesis
    unfolding slice_def
    by (simp only: i if_False b sum.case bshape_same entries_same [OF assms(3,4)])
qed

subsection \<open>\<open>find_entries\<close> on a geometry of the table's shape\<close>

lemma find_entries_geometry:
  assumes g: "base_dist s = Some base" "overlap_dist s = Some overlap" "chunk_dist s = Some chunk"
      "d' s = Some lo" "end' s = Some hi" "di s = Some [1..<Suc n]"
    and len: "length lo = n" "length hi = n" "length base = n" "length overlap = n"
      "length chunk = n" "length cube = n"
    and n: "0 < n" "ncols data = Suc n"
  shows "find_entries s data cube =
    Inr (data \<lparr> rows := filter (in_bin lo hi base overlap chunk cube) (rows data) \<rparr>)"
proof -
  let ?l = "map (\<lambda>j. lo ! j + real_of_int (cube ! j) * base ! j - overlap ! j) [0..<n]"
  let ?u = "map (\<lambda>j. lo ! j + real_of_int (cube ! j) * base ! j - overlap ! j + chunk ! j) [0..<n]"
  let ?cl = "map (\<lambda>j. clip (?l ! j) (lo ! j) (hi ! j)) [0..<n]"
  let ?cu = "map (\<lambda>j. clip (?u ! j) (lo ! j) (hi ! j)) [0..<n]"
  have 1: "unclipped lo base overlap chunk cube = Inr (?l, ?u)"
    by (rule unclipped_same) (rule len)+
  have 2: "np_clip ?l lo hi = Inr ?cl"
    by (rule np_clip_same) (simp_all add: len)
  have 3: "np_clip ?u lo hi = Inr ?cu"
    by (rule np_clip_same) (simp_all add: len)
  have 4: "slice [1..<Suc n] ?cl ?cu data =
      Inr (data \<lparr> rows := filter (\<lambda>r. \<forall>j < n. ?cl ! j \<le> r ! Suc j \<and> r ! Suc j \<le> ?cu ! j)
                                   (rows data) \<rparr>)"
    by (rule slice_same) (simp_all add: n)
  have 5: "(\<forall>j < n. ?cl ! j \<le> r ! Suc j \<and> r ! Suc j \<le> ?cu ! j) =
      in_bin lo hi base overlap chunk cube r" for r
    by (simp add: in_bin_def clipped_lower_def clipped_upper_def len)
  have "find_entries s data cube = slice [1..<Suc n] ?cl ?cu data"
    unfolding find_entries_def
    by (simp only: g option.case 1 sum.case prod.case 2 3)
  then show ?thesis
    by (simp only: 4 5)
qed

subsection \<open>The bounds\<close>

lemma column_drop:
  assumes "rect t" "j < ncols t - 1"
  shows "column j (map (drop 1) (rows t)) = column (Suc j) (rows t)"
  using assms by (auto simp: column_def rect_def list_all_iff)

lemma np_min_minima:
  assumes "rect t" "rows t \<noteq> []"
  shows "np_min (ncols t - 1) (map (drop 1) (rows t)) = Inr (minima t)"
proof -
  have "map (\<lambda>j. Min (set (column j (map (drop 1) (rows t))))) [0..<ncols t - 1] = minima t"
    unfolding minima_def by (rule map_cong) (simp_all only: column_drop [OF assms(1)] atLeastLessThan_iff set_upt)
  then show ?thesis
    using assms(2) by (simp only: np_min_def map_is_Nil_conv if_False)
qed

lemma np_max_maxima:
  assumes "rect t" "rows t \<noteq> []"
  shows "np_max (ncols t - 1) (map (drop 1) (rows t)) = Inr (maxima t)"
proof -
  have "map (\<lambda>j. Max (set (column j (map (drop 1) (rows t))))) [0..<ncols t - 1] = maxima t"
    unfolding maxima_def by (rule map_cong) (simp_all only: column_drop [OF assms(1)] atLeastLessThan_iff set_upt)
  then show ?thesis
    using assms(2) by (simp only: np_max_def map_is_Nil_conv if_False)
qed

lemma length_minima [simp]: "length (minima t) = ncols t - 1"
  by (simp add: minima_def)

lemma length_maxima [simp]: "length (maxima t) = ncols t - 1"
  by (simp add: maxima_def)

lemma minima_le:
  assumes "r \<in> set (rows t)" "j < ncols t - 1"
  shows "minima t ! j \<le> r ! Suc j"
  using assms by (simp add: minima_def column_def)

lemma maxima_ge:
  assumes "r \<in> set (rows t)" "j < ncols t - 1"
  shows "r ! Suc j \<le> maxima t ! j"
  using assms by (simp add: maxima_def column_def)

lemma minima_le_maxima:
  assumes "rows t \<noteq> []" "j < ncols t - 1"
  shows "minima t ! j \<le> maxima t ! j"
proof -
  obtain r where "r \<in> set (rows t)"
    using assms(1) by (cases "rows t") auto
  then show ?thesis
    using minima_le [of r t j] maxima_ge [of r t j] assms(2) by linarith
qed

lemma bounds_of_None:
  assumes "limits s = None" "rect t" "rows t \<noteq> []"
  shows "bounds_of s t = Inr (s, [], minima t, maxima t)"
  unfolding bounds_of_def Let_def
  by (simp only: np_min_minima [OF assms(2,3)] np_max_maxima [OF assms(2,3)] assms(1)
      sum.case option.case)

lemma bounds_of_Some:
  assumes "limits s = Some lims" "length lims = ncols t - 1" "rect t" "rows t \<noteq> []"
  shows "bounds_of s t =
    Inr (s \<lparr> limits := Some (map (\<lambda>(a, b). (unmark a, unmark b)) lims) \<rparr>,
         if \<not> (list_all2 (\<ge>) (minima t) (map2 resolve (map fst lims) (minima t))
                \<or> list_all2 (\<le>) (maxima t) (map2 resolve (map snd lims) (maxima t)))
         then [CoverageWarning (minima t) (map2 resolve (map fst lims) (minima t))
                 (maxima t) (map2 resolve (map snd lims) (maxima t))]
         else [],
         map2 resolve (map fst lims) (minima t),
         map2 resolve (map snd lims) (maxima t))"
proof -
  have a: "assign_column (length lims) (minima t) = Inr (minima t)"
      "assign_column (length lims) (maxima t) = Inr (maxima t)"
    by (simp_all add: assign_column_def stretch_same assms(2))
  have st: "stretch (length lims) (minima t) = minima t"
      "stretch (length lims) (maxima t) = maxima t"
    by (simp_all add: stretch_same assms(2))
  show ?thesis
    unfolding bounds_of_def Let_def
    by (simp only: np_min_minima [OF assms(3,4)] np_max_maxima [OF assms(3,4)] assms(1)
        sum.case option.case a st)
qed

lemma resolve_eq: "resolve l c = (case l of Unbounded \<Rightarrow> c | Val x \<Rightarrow> x)"
  by (cases l) simp_all

lemma length_resolved [simp]:
  assumes "wf_limits s t"
  shows "length (resolved_lower s t) = ncols t - 1" "length (resolved_upper s t) = ncols t - 1"
  using assms
  by (simp_all add: wf_limits_def resolved_lower_def resolved_upper_def split: option.splits)

lemma bounds_of_rows:
  assumes "bounds_of s t = Inr b"
  shows "rows t \<noteq> []"
  using assms by (auto simp: bounds_of_def np_min_def)

lemma bounds_of_resolved:
  assumes "bounds_of s t = Inr (s1, ws, lo, hi)" "wf_limits s t" "rect t"
  shows "lo = resolved_lower s t \<and> hi = resolved_upper s t
    \<and> n_cubes s1 = n_cubes s \<and> perc_overlap s1 = perc_overlap s"
proof (cases "limits s")
  case None
  then show ?thesis
    using assms bounds_of_None [OF None assms(3) bounds_of_rows [OF assms(1)]]
    by (simp add: resolved_lower_def resolved_upper_def)
next
  case (Some lims)
  then have "length lims = ncols t - 1"
    using assms(2) by (simp add: wf_limits_def)
  from bounds_of_Some [OF Some this assms(3) bounds_of_rows [OF assms(1)]] assms(1) Some
  show ?thesis
    by (simp add: resolved_lower_def resolved_upper_def resolve_eq [abs_def])
qed

lemma bounds_of_total:
  assumes "rect t" "rows t \<noteq> []" "wf_limits s t"
  shows "\<exists>s1 ws. bounds_of s t = Inr (s1, ws, resolved_lower s t, resolved_upper s t)
    \<and> n_cubes s1 = n_cubes s"
proof (cases "limits s")
  case None
  then show ?thesis
    using bounds_of_None [OF None assms(1,2)]
    by (simp add: resolved_lower_def resolved_upper_def)
next
  case (Some lims)
  then have "length lims = ncols t - 1"
    using assms(3) by (simp add: wf_limits_def)
  from bounds_of_Some [OF Some this assms(1,2)] Some
  show ?thesis
    by (simp add: resolved_lower_def resolved_upper_def resolve_eq [abs_def])
qed

subsection \<open>Cube counts and coordinates\<close>

lemma cubes_of_length:
  assumes "cubes_of nc k = Inr cs"
  shows "length cs = k"
  using assms by (auto simp: cubes_of_def split: cubes.splits if_splits)

lemma divide_cubes_nth:
  assumes "divide_cubes diff nc = Inr base" "cubes_of nc k = Inr cs" "length diff = k"
  shows "length base = k \<and> (\<forall>j < k. cs ! j \<noteq> 0 \<and> base ! j = diff ! j / real_of_int (cs ! j))"
proof (cases nc)
  case (IntCubes n)
  then show ?thesis
    using assms by (auto simp: divide_cubes_def cubes_of_def split: if_splits)
next
  case (ListCubes ns)
  then have ns: "length ns = k" "cs = ns"
    using assms(2) by (auto simp: cubes_of_def split: if_splits)
  then have "k = 0 \<or> 0 \<notin> set ns" "base = map2 (\<lambda>x n. x / real_of_int n) diff ns"
    using assms(1,3) ListCubes
    by (auto simp: divide_cubes_def bshape_same stretch_same split: if_splits)
  then show ?thesis
    using ns assms(3) by (auto simp: in_set_conv_nth)
qed

lemma divide_cubes_total:
  assumes "cubes_of nc k = Inr cs" "0 \<notin> set cs" "length diff = k"
  shows "\<exists>base. divide_cubes diff nc = Inr base"
proof (cases nc)
  case (IntCubes n)
  then have "cs = replicate k n"
    using assms(1) by (simp add: cubes_of_def)
  then have "diff \<noteq> [] \<longrightarrow> n \<noteq> 0"
    using assms(2,3) by auto
  then show ?thesis
    using IntCubes by (auto simp: divide_cubes_def)
next
  case (ListCubes ns)
  then have ns: "length ns = k" "cs = ns"
    using assms(1) by (auto simp: cubes_of_def split: if_splits)
  then show ?thesis
    using ListCubes assms(2,3) by (simp add: divide_cubes_def bshape_same)
qed

lemma py_range_iff: "i \<in> set (py_range n) \<longleftrightarrow> 0 \<le> i \<and> i < n"
  by (auto simp: py_range_def image_iff intro: bexI [of _ "nat i"])

lemma coordinates_of_iff:
  "c \<in> set (coordinates_of cs) \<longleftrightarrow>
     length c = length cs \<and> (\<forall>j < length cs. 0 \<le> c ! j \<and> c ! j < cs ! j)"
  by (auto simp: coordinates_of_def product_lists_set list_all2_conv_all_nth py_range_iff)








lemma coordinates_of_ones: "coordinates_of (replicate k 1) = [replicate k 0]"
  by (induction k) (simp_all add: coordinates_of_def py_range_def)

subsection \<open>The geometry that \<open>define_bins\<close> stores\<close>

lemma define_bins_eq:
  assumes "bounds_of s t = Inr (s1, ws, lo, hi)"
    and "divide_cubes (map2 (-) hi lo) (n_cubes s1) = Inr base"
    and "cubes_of (n_cubes s1) (ncols t - 1) = Inr cs"
  shows "define_bins s t =
    (s1 \<lparr> base_dist := Some base,
          overlap_dist := Some (map (\<lambda>b. perc_overlap s1 * b) base),
          chunk_dist := Some (map2 (\<lambda>b ov. b + ov * 2) base (map (\<lambda>b. perc_overlap s1 * b) base)),
          d' := Some lo, end' := Some hi,
          di := Some [1..<ncols t], nr_dimensions := Some (ncols t - 1) \<rparr>,
     ws, Inr (coordinates_of cs))"
  using assms by (simp add: define_bins_def Let_def)

lemma define_bins_Inr:
  assumes "define_bins s t = (s', ws, Inr coords)"
  obtains s1 lo hi base cs where
    "bounds_of s t = Inr (s1, ws, lo, hi)"
    "divide_cubes (map2 (-) hi lo) (n_cubes s1) = Inr base"
    "cubes_of (n_cubes s1) (ncols t - 1) = Inr cs"
    "coords = coordinates_of cs"
    "s' = s1 \<lparr> base_dist := Some base,
          overlap_dist := Some (map (\<lambda>b. perc_overlap s1 * b) base),
          chunk_dist := Some (map2 (\<lambda>b ov. b + ov * 2) base (map (\<lambda>b. perc_overlap s1 * b) base)),
          d' := Some lo, end' := Some hi,
          di := Some [1..<ncols t], nr_dimensions := Some (ncols t - 1) \<rparr>"
  using assms
  by (auto simp: define_bins_def Let_def split: sum.splits prod.splits)

lemma define_bins_geometry:
  assumes "define_bins s t = (s', ws, Inr coords)" "wf_limits s t" "rect t"
  shows "\<exists>base cs.
      d' s' = Some (resolved_lower s t) \<and> end' s' = Some (resolved_upper s t)
    \<and> base_dist s' = Some base
    \<and> overlap_dist s' = Some (map (\<lambda>b. perc_overlap s * b) base)
    \<and> chunk_dist s' = Some (map (\<lambda>b. b + perc_overlap s * b * 2) base)
    \<and> di s' = Some [1..<ncols t]
    \<and> length base = ncols t - 1
    \<and> divide_cubes (map2 (-) (resolved_upper s t) (resolved_lower s t)) (n_cubes s) = Inr base
    \<and> cubes_of (n_cubes s) (ncols t - 1) = Inr cs
    \<and> coords = coordinates_of cs
    \<and> (\<forall>j < ncols t - 1. cs ! j \<noteq> 0
          \<and> base ! j = (resolved_upper s t ! j - resolved_lower s t ! j) / real_of_int (cs ! j))"
proof -
  from assms(1) obtain s1 lo hi base cs where
    b: "bounds_of s t = Inr (s1, ws, lo, hi)"
    and dv: "divide_cubes (map2 (-) hi lo) (n_cubes s1) = Inr base"
    and cu: "cubes_of (n_cubes s1) (ncols t - 1) = Inr cs"
    and co: "coords = coordinates_of cs"
    and s': "s' = s1 \<lparr> base_dist := Some base,
          overlap_dist := Some (map (\<lambda>b. perc_overlap s1 * b) base),
          chunk_dist := Some (map2 (\<lambda>b ov. b + ov * 2) base (map (\<lambda>b. perc_overlap s1 * b) base)),
          d' := Some lo, end' := Some hi,
          di := Some [1..<ncols t], nr_dimensions := Some (ncols t - 1) \<rparr>"
    by (rule define_bins_Inr)
  from bounds_of_resolved [OF b assms(2,3)]
  have r: "lo = resolved_lower s t" "hi = resolved_upper s t" "n_cubes s1 = n_cubes s"
      "perc_overlap s1 = perc_overlap s"
    by simp_all
  have ld: "length (map2 (-) hi lo) = ncols t - 1"
    using r assms(2) by simp
  from divide_cubes_nth [OF dv cu ld]
  have n: "length base = ncols t - 1"
      "\<forall>j < ncols t - 1. cs ! j \<noteq> 0 \<and> base ! j = map2 (-) hi lo ! j / real_of_int (cs ! j)"
    by simp_all
  have n': "\<forall>j < ncols t - 1. cs ! j \<noteq> 0 \<and> base ! j = (hi ! j - lo ! j) / real_of_int (cs ! j)"
    using n(2) r assms(2) by simp
  have ch: "map2 (\<lambda>b ov. b + ov * 2) base (map (\<lambda>b. perc_overlap s * b) base)
      = map (\<lambda>b. b + perc_overlap s * b * 2) base"
    by (rule nth_equalityI) simp_all
  show ?thesis
    using s' r dv cu co n(1) n' ch by simp
qed

lemma define_bins_total:
  assumes "rect t" "rows t \<noteq> []" "wf_limits s t"
    and "cubes_of (n_cubes s) (ncols t - 1) = Inr cs" "0 \<notin> set cs"
  shows "\<exists>s' ws. define_bins s t = (s', ws, Inr (coordinates_of cs))"
proof -
  from bounds_of_total [OF assms(1-3)] obtain s1 ws where
    b: "bounds_of s t = Inr (s1, ws, resolved_lower s t, resolved_upper s t)"
    and n: "n_cubes s1 = n_cubes s"
    by blast
  have "length (map2 (-) (resolved_upper s t) (resolved_lower s t)) = ncols t - 1"
    using assms(3) by simp
  from divide_cubes_total [OF assms(4,5) this] obtain base where
    "divide_cubes (map2 (-) (resolved_upper s t) (resolved_lower s t)) (n_cubes s1) = Inr base"
    using n by auto
  from define_bins_eq [OF b this] assms(4) n show ?thesis
    by simp
qed

lemma find_entries_defined:
  assumes "define_bins s t = (s', ws, Inr coords)" "wf_limits s t" "rect t"
    and "2 \<le> ncols t" "ncols q = ncols t" "length cube = ncols t - 1"
  shows "\<exists>base cs.
      divide_cubes (map2 (-) (resolved_upper s t) (resolved_lower s t)) (n_cubes s) = Inr base
    \<and> length base = ncols t - 1
    \<and> cubes_of (n_cubes s) (ncols t - 1) = Inr cs
    \<and> coords = coordinates_of cs
    \<and> (\<forall>j < ncols t - 1. cs ! j \<noteq> 0
          \<and> base ! j = (resolved_upper s t ! j - resolved_lower s t ! j) / real_of_int (cs ! j))
    \<and> find_entries s' q cube =
        Inr (q \<lparr> rows := filter (in_bin (resolved_lower s t) (resolved_upper s t) base
              (map (\<lambda>b. perc_overlap s * b) base)
              (map (\<lambda>b. b + perc_overlap s * b * 2) base) cube) (rows q) \<rparr>)"
proof -
  from define_bins_geometry [OF assms(1-3)] obtain base cs where
    g: "d' s' = Some (resolved_lower s t)" "end' s' = Some (resolved_upper s t)"
      "base_dist s' = Some base"
      "overlap_dist s' = Some (map (\<lambda>b. perc_overlap s * b) base)"
      "chunk_dist s' = Some (map (\<lambda>b. b + perc_overlap s * b * 2) base)"
      "di s' = Some [1..<ncols t]"
    and l: "length base = ncols t - 1"
    and r: "divide_cubes (map2 (-) (resolved_upper s t) (resolved_lower s t)) (n_cubes s) = Inr base"
      "cubes_of (n_cubes s) (ncols t - 1) = Inr cs" "coords = coordinates_of cs"
      "\<forall>j < ncols t - 1. cs ! j \<noteq> 0
          \<and> base ! j = (resolved_upper s t ! j - resolved_lower s t ! j) / real_of_int (cs ! j)"
    by blast
  obtain n where n: "ncols t = Suc n" "0 < n"
    using assms(4) by (cases "ncols t") auto
  have "find_entries s' q cube =
      Inr (q \<lparr> rows := filter (in_bin (resolved_lower s t) (resolved_upper s t) base
            (map (\<lambda>b. perc_overlap s * b) base)
            (map (\<lambda>b. b + perc_overlap s * b * 2) base) cube) (rows q) \<rparr>)"
  proof (rule find_entries_geometry [where n = n])
    show "di s' = Some [1..<Suc n]"
      using g(6) n by simp
  qed (use g l n assms in simp_all)
  with l r show ?thesis
    by blast
qed

lemma define_bins_warnings:
  assumes "bounds_of s t = Inr (s1, ws, lo, hi)"
  shows "fst (snd (define_bins s t)) = ws"
  using assms by (simp add: define_bins_def Let_def split: sum.splits)

lemma bounds_of_frame:
  assumes "bounds_of s t = Inr (s1, ws, lo, hi)"
  shows "n_cubes s1 = n_cubes s \<and> base_dist s1 = base_dist s"
  using assms
  by (auto simp: bounds_of_def Let_def split: sum.splits option.splits)


subsection \<open>One dimension\<close>

lemma clip_lower_le:
  assumes "L \<le> x" "lo \<le> x"
  shows "clip L lo hi \<le> x"
  using assms by (simp add: clip_def min_le_iff_disj)

lemma le_clip_upper:
  assumes "x \<le> U" "x \<le> hi"
  shows "x \<le> clip U lo hi"
  using assms by (simp add: clip_def le_max_iff_disj)

lemma clip_mono:
  assumes "x \<le> y"
  shows "clip x lo hi \<le> clip y lo hi"
  using assms by (auto simp: clip_def min_def max_def)


lemma clip_inverted:
  assumes "hi < lo"
  shows "clip x lo hi = hi"
  using assms by (simp add: clip_def min_def max_def)

lemma cube_of_value:
  fixes lo hi x :: real and n :: int
  assumes "lo \<le> x" "x \<le> hi" "0 < n"
  shows "\<exists>i. 0 \<le> i \<and> i < n
    \<and> lo + real_of_int i * ((hi - lo) / real_of_int n) \<le> x
    \<and> x \<le> lo + real_of_int i * ((hi - lo) / real_of_int n) + (hi - lo) / real_of_int n"
proof -
  define b where "b = (hi - lo) / real_of_int n"
  have n: "0 < real_of_int n"
    using assms(3) by simp
  have b0: "0 \<le> b"
    using assms n by (simp add: b_def)
  have nb: "real_of_int n * b = hi - lo"
    using n by (simp add: b_def)
  show ?thesis
  proof (cases "b = 0")
    case True
    then have "hi = lo"
      using nb by simp
    then have "0 \<le> (0::int) \<and> 0 < n \<and> lo + real_of_int 0 * b \<le> x \<and> x \<le> lo + real_of_int 0 * b + b"
      using assms True by simp
    then show ?thesis
      unfolding b_def by blast
  next
    case False
    then have bp: "0 < b"
      using b0 by simp
    define k where "k = \<lfloor>(x - lo) / b\<rfloor>"
    have k0: "0 \<le> k"
      using assms(1) bp by (simp add: k_def)
    have kl: "real_of_int k * b \<le> x - lo"
      using bp by (simp add: k_def pos_le_divide_eq [symmetric])
    have ku: "x - lo < (real_of_int k + 1) * b"
      using bp by (simp add: k_def pos_divide_less_eq [symmetric])
    show ?thesis
    proof (cases "k < n")
      case True
      have "lo + real_of_int k * b \<le> x \<and> x \<le> lo + real_of_int k * b + b"
        using kl ku by (simp add: algebra_simps)
      with k0 True show ?thesis
        unfolding b_def by blast
    next
      case False
      then have "real_of_int n \<le> real_of_int k"
        by simp
      then have "real_of_int n * b \<le> real_of_int k * b"
        using b0 by (rule mult_right_mono)
      then have "hi \<le> x"
        using kl nb by simp
      then have xh: "x = hi"
        using assms(2) by simp
      have "real_of_int (n - 1) * b + b = hi - lo"
        using nb by (simp add: algebra_simps)
      then have "lo + real_of_int (n - 1) * b \<le> x \<and> x \<le> lo + real_of_int (n - 1) * b + b"
        using xh b0 by simp
      moreover have "0 \<le> n - 1 \<and> n - 1 < n"
        using assms(3) by simp
      ultimately show ?thesis
        unfolding b_def by blast
    qed
  qed
qed

lemma in_bin_dimension:
  fixes lo hi x p :: real and n i :: int
  assumes "lo \<le> x" "x \<le> hi" "0 < n" "0 \<le> p"
    and "lo + real_of_int i * ((hi - lo) / real_of_int n) \<le> x"
    and "x \<le> lo + real_of_int i * ((hi - lo) / real_of_int n) + (hi - lo) / real_of_int n"
  shows "clip (lo + real_of_int i * ((hi - lo) / real_of_int n) - p * ((hi - lo) / real_of_int n)) lo hi \<le> x"
    and "x \<le> clip (lo + real_of_int i * ((hi - lo) / real_of_int n) - p * ((hi - lo) / real_of_int n)
            + ((hi - lo) / real_of_int n + p * ((hi - lo) / real_of_int n) * 2)) lo hi"
proof -
  define b where "b = (hi - lo) / real_of_int n"
  have "0 \<le> b"
    using assms(1-3) by (simp add: b_def)
  then have pb: "0 \<le> p * b"
    using assms(4) by simp
  have "lo + real_of_int i * b - p * b \<le> x"
    using assms(5) pb by (simp add: b_def)
  then show "clip (lo + real_of_int i * ((hi - lo) / real_of_int n) - p * ((hi - lo) / real_of_int n)) lo hi \<le> x"
    unfolding b_def [symmetric] using assms(1) by (rule clip_lower_le)
  have "x \<le> lo + real_of_int i * b - p * b + (b + p * b * 2)"
    using assms(6) pb by (simp add: b_def)
  then show "x \<le> clip (lo + real_of_int i * ((hi - lo) / real_of_int n) - p * ((hi - lo) / real_of_int n)
            + ((hi - lo) / real_of_int n + p * ((hi - lo) / real_of_int n) * 2)) lo hi"
    unfolding b_def [symmetric] using assms(2) by (rule le_clip_upper)
qed

lemma bin_grows_dimension:
  fixes lo hi a b p1 p2 x :: real
  assumes "p1 \<le> p2" "lo \<le> hi \<longrightarrow> 0 \<le> b"
    and "clip (a - p1 * b) lo hi \<le> x" "x \<le> clip (a - p1 * b + (b + p1 * b * 2)) lo hi"
  shows "clip (a - p2 * b) lo hi \<le> x" "x \<le> clip (a - p2 * b + (b + p2 * b * 2)) lo hi"
proof -
  show "clip (a - p2 * b) lo hi \<le> x"
  proof (cases "lo \<le> hi")
    case True
    then have "p1 * b \<le> p2 * b"
      using assms(1,2) by (simp add: mult_right_mono)
    then have "clip (a - p2 * b) lo hi \<le> clip (a - p1 * b) lo hi"
      by (intro clip_mono) linarith
    then show ?thesis
      using assms(3) by linarith
  next
    case False
    then show ?thesis
      using assms(3) by (simp add: clip_inverted)
  qed
  show "x \<le> clip (a - p2 * b + (b + p2 * b * 2)) lo hi"
  proof (cases "lo \<le> hi")
    case True
    then have "p1 * b \<le> p2 * b"
      using assms(1,2) by (simp add: mult_right_mono)
    then have "clip (a - p1 * b + (b + p1 * b * 2)) lo hi \<le> clip (a - p2 * b + (b + p2 * b * 2)) lo hi"
      by (intro clip_mono) linarith
    then show ?thesis
      using assms(4) by linarith
  next
    case False
    then show ?thesis
      using assms(4) by (simp add: clip_inverted)
  qed
qed

subsection \<open>All dimensions\<close>

lemma row_in_some_bin:
  assumes len: "length lo = k" "length hi = k" "length base = k" "length cs = k"
    and x: "\<forall>j < k. lo ! j \<le> r ! Suc j \<and> r ! Suc j \<le> hi ! j"
    and cs: "\<forall>j < k. 0 < cs ! j \<and> base ! j = (hi ! j - lo ! j) / real_of_int (cs ! j)"
    and p: "0 \<le> p"
  shows "\<exists>c. c \<in> set (coordinates_of cs)
    \<and> in_bin lo hi base (map (\<lambda>b. p * b) base) (map (\<lambda>b. b + p * b * 2) base) c r"
proof -
  have "\<forall>j. \<exists>i. j < k \<longrightarrow> 0 \<le> i \<and> i < cs ! j
      \<and> lo ! j + real_of_int i * ((hi ! j - lo ! j) / real_of_int (cs ! j)) \<le> r ! Suc j
      \<and> r ! Suc j \<le> lo ! j + real_of_int i * ((hi ! j - lo ! j) / real_of_int (cs ! j))
            + (hi ! j - lo ! j) / real_of_int (cs ! j)"
    using x cs cube_of_value by blast
  then obtain f where f: "\<forall>j < k. 0 \<le> f j \<and> f j < cs ! j
      \<and> lo ! j + real_of_int (f j) * ((hi ! j - lo ! j) / real_of_int (cs ! j)) \<le> r ! Suc j
      \<and> r ! Suc j \<le> lo ! j + real_of_int (f j) * ((hi ! j - lo ! j) / real_of_int (cs ! j))
            + (hi ! j - lo ! j) / real_of_int (cs ! j)"
    by metis
  define c where "c = map f [0..<k]"
  have c: "length c = k" "\<forall>j < k. c ! j = f j"
    by (simp_all add: c_def)
  have "c \<in> set (coordinates_of cs)"
    using c f len(4) by (simp add: coordinates_of_iff)
  moreover have "in_bin lo hi base (map (\<lambda>b. p * b) base) (map (\<lambda>b. b + p * b * 2) base) c r"
    unfolding in_bin_def clipped_lower_def clipped_upper_def
  proof (intro allI impI conjI)
    fix j
    assume "j < length c"
    then have j: "j < k"
      using c(1) by simp
    have b: "base ! j = (hi ! j - lo ! j) / real_of_int (cs ! j)"
        "map (\<lambda>b. p * b) base ! j = p * ((hi ! j - lo ! j) / real_of_int (cs ! j))"
        "map (\<lambda>b. b + p * b * 2) base ! j = (hi ! j - lo ! j) / real_of_int (cs ! j)
            + p * ((hi ! j - lo ! j) / real_of_int (cs ! j)) * 2"
      using j cs len(3) by simp_all
    have h: "lo ! j \<le> r ! Suc j" "r ! Suc j \<le> hi ! j" "0 < cs ! j"
      using j x cs by simp_all
    have g: "lo ! j + real_of_int (c ! j) * ((hi ! j - lo ! j) / real_of_int (cs ! j)) \<le> r ! Suc j"
        "r ! Suc j \<le> lo ! j + real_of_int (c ! j) * ((hi ! j - lo ! j) / real_of_int (cs ! j))
            + (hi ! j - lo ! j) / real_of_int (cs ! j)"
      using j f c(2) by simp_all
    show "clip (lo ! j + real_of_int (c ! j) * base ! j - map (\<lambda>b. p * b) base ! j) (lo ! j) (hi ! j)
        \<le> r ! Suc j"
      unfolding b by (rule in_bin_dimension(1) [OF h p g])
    show "r ! Suc j \<le> clip (lo ! j + real_of_int (c ! j) * base ! j - map (\<lambda>b. p * b) base ! j
        + map (\<lambda>b. b + p * b * 2) base ! j) (lo ! j) (hi ! j)"
      unfolding b by (rule in_bin_dimension(2) [OF h p g])
  qed
  ultimately show ?thesis
    by blast
qed

lemma in_bin_grows:
  assumes len: "length lo = k" "length hi = k" "length base = k" "length c = k"
    and b: "\<forall>j < k. lo ! j \<le> hi ! j \<longrightarrow> 0 \<le> base ! j"
    and p: "p1 \<le> p2"
    and i: "in_bin lo hi base (map (\<lambda>b. p1 * b) base) (map (\<lambda>b. b + p1 * b * 2) base) c r"
  shows "in_bin lo hi base (map (\<lambda>b. p2 * b) base) (map (\<lambda>b. b + p2 * b * 2) base) c r"
  unfolding in_bin_def clipped_lower_def clipped_upper_def
proof (intro allI impI)
  fix j
  assume "j < length c"
  then have j: "j < k"
    using len by simp
  have m: "map (\<lambda>b. p * b) base ! j = p * base ! j"
      "map (\<lambda>b. b + p * b * 2) base ! j = base ! j + p * base ! j * 2" for p
    using j len by simp_all
  have g: "lo ! j \<le> hi ! j \<longrightarrow> 0 \<le> base ! j"
    using b j by simp
  have h: "clip (lo ! j + real_of_int (c ! j) * base ! j - p1 * base ! j) (lo ! j) (hi ! j) \<le> r ! Suc j"
      "r ! Suc j \<le> clip (lo ! j + real_of_int (c ! j) * base ! j - p1 * base ! j
          + (base ! j + p1 * base ! j * 2)) (lo ! j) (hi ! j)"
    using i j len by (simp_all add: in_bin_def clipped_lower_def clipped_upper_def)
  show "clip (lo ! j + real_of_int (c ! j) * base ! j - map (\<lambda>b. p2 * b) base ! j) (lo ! j) (hi ! j)
        \<le> r ! Suc j
      \<and> r ! Suc j \<le> clip (lo ! j + real_of_int (c ! j) * base ! j - map (\<lambda>b. p2 * b) base ! j
          + map (\<lambda>b. b + p2 * b * 2) base ! j) (lo ! j) (hi ! j)"
    unfolding m using bin_grows_dimension [OF p g h] by simp
qed

lemma subseq_filter_mono:
  assumes "\<And>x. x \<in> set xs \<Longrightarrow> P x \<Longrightarrow> Q x"
  shows "set (filter P xs) \<subseteq> set (filter Q xs) \<and> length (filter P xs) \<le> length (filter Q xs)"
  using assms by (induction xs) (auto simp: le_SucI)

subsection \<open>The errors of \<open>find_entries\<close>\<close>

lemma broadcast_error:
  assumes "broadcast f xs ys = Inl e"
  shows "e = ValueError"
  using assms by (auto simp: broadcast_def bshape_def split: if_splits)

lemma unclipped_error:
  assumes "unclipped lo base overlap chunk cube = Inl e"
  shows "e = ValueError"
  using assms by (auto simp: unclipped_def split: sum.splits dest: broadcast_error)

lemma np_clip_error:
  assumes "np_clip xs lo hi = Inl e"
  shows "e = ValueError"
  using assms by (auto simp: np_clip_def split: sum.splits dest: broadcast_error)

lemma slice_error:
  assumes "slice idx lower upper data = Inl e"
  shows "e = ValueError \<or> e = IndexError"
  using assms by (auto simp: slice_def bshape_def split: if_splits sum.splits)

lemma find_entries_no_attribute_error:
  assumes "base_dist s \<noteq> None" "overlap_dist s \<noteq> None" "chunk_dist s \<noteq> None"
    "d' s \<noteq> None" "end' s \<noteq> None" "di s \<noteq> None"
  shows "find_entries s data cube \<noteq> Inl AttributeError"
  using assms
  by (auto simp: find_entries_def split: option.splits sum.splits prod.splits
      dest: unclipped_error np_clip_error slice_error)

subsection \<open>The example inputs, evaluated\<close>

lemmas eval_defs =
  define_bins_def bounds_of_def np_min_def np_max_def column_def divide_cubes_def
  bshape_def stretch_def cubes_of_def coordinates_of_def py_range_def new_cover_def
  assign_column_def Let_def


lemma line_define_bins:
  "define_bins line_cover line_table = (line_bins, [], Inr [[0], [1]])"
  by (simp add: line_cover_def line_table_def line_bins_def eval_defs eval_nat_numeral)


section \<open>The scheme in exact arithmetic\<close>

text \<open>
  The three lemmas of this section are about the scheme as the model computes it, with
  exact division, multiplication, addition and subtraction. They say that the scheme is
  sound as mathematics: the bins cover the data, a larger overlap only adds rows, and one
  cube without \<open>limits\<close> is the whole table. They are not statements about the source:
  float64 rounds every operation of lines 141 to 147 and 194 to 195, and a bound that is
  rounded inward loses the row that lies on it. With \<open>n_cubes = 2\<close>, \<open>perc_overlap = 0.0\<close>
  and the lens values 0.1 and 1.2, float64 gives the last bin the upper bound
  1.1999999999999997, and the row with 1.2 is in no bin.
\<close>

text \<open>
  In exact arithmetic, without \<open>limits\<close>, with positive cube counts and an overlap
  fraction that is not negative, every row is among the rows of some coordinate.
\<close>

lemma exact_every_row_in_some_bin:
  assumes "limits s = None" "rect t" "2 \<le> ncols t"
    and "cubes_of (n_cubes s) (ncols t - 1) = Inr cs" "\<forall>n \<in> set cs. 0 < n"
    and "0 \<le> perc_overlap s" "r \<in> set (rows t)"
  shows "\<exists>s' ws coords. define_bins s t = (s', ws, Inr coords)
    \<and> (\<exists>c \<in> set coords. \<exists>found. find_entries s' t c = Inr found \<and> r \<in> set (rows found))"
proof -
  have w: "wf_limits s t"
    using assms(1) by (simp add: wf_limits_def)
  have ne: "rows t \<noteq> []"
    using assms(7) by auto
  have z: "0 \<notin> set cs"
    using assms(5) by auto
  have lcs: "length cs = ncols t - 1"
    using assms(4) by (rule cubes_of_length)
  from define_bins_total [OF assms(2) ne w assms(4) z] obtain s' ws where
    d: "define_bins s t = (s', ws, Inr (coordinates_of cs))"
    by blast
  from define_bins_geometry [OF d w assms(2)] obtain base cs' where
    g: "d' s' = Some (resolved_lower s t)" "end' s' = Some (resolved_upper s t)"
      "base_dist s' = Some base"
      "overlap_dist s' = Some (map (\<lambda>b. perc_overlap s * b) base)"
      "chunk_dist s' = Some (map (\<lambda>b. b + perc_overlap s * b * 2) base)"
      "di s' = Some [1..<ncols t]"
    and l: "length base = ncols t - 1"
    and cs': "cubes_of (n_cubes s) (ncols t - 1) = Inr cs'"
    and b: "\<forall>j < ncols t - 1. cs' ! j \<noteq> 0
          \<and> base ! j = (resolved_upper s t ! j - resolved_lower s t ! j) / real_of_int (cs' ! j)"
    by blast
  have [simp]: "cs' = cs"
    using cs' assms(4) by simp
  have lo: "resolved_lower s t = minima t" and hi: "resolved_upper s t = maxima t"
    using assms(1) by (simp_all add: resolved_lower_def resolved_upper_def)
  have "\<exists>c. c \<in> set (coordinates_of cs)
      \<and> in_bin (minima t) (maxima t) base (map (\<lambda>b. perc_overlap s * b) base)
          (map (\<lambda>b. b + perc_overlap s * b * 2) base) c r"
  proof (rule row_in_some_bin [where k = "ncols t - 1"])
    show "\<forall>j < ncols t - 1. minima t ! j \<le> r ! Suc j \<and> r ! Suc j \<le> maxima t ! j"
      using assms(7) by (simp add: minima_le maxima_ge)
    show "\<forall>j < ncols t - 1. 0 < cs ! j \<and> base ! j = (maxima t ! j - minima t ! j) / real_of_int (cs ! j)"
      using b assms(5) lcs by (simp add: lo hi)
  qed (use l lcs assms(6) in simp_all)
  then obtain c where c: "c \<in> set (coordinates_of cs)"
    and i: "in_bin (minima t) (maxima t) base (map (\<lambda>b. perc_overlap s * b) base)
          (map (\<lambda>b. b + perc_overlap s * b * 2) base) c r"
    by blast
  have lc: "length c = ncols t - 1"
    using c lcs by (simp add: coordinates_of_iff)
  obtain n where n: "ncols t = Suc n" "0 < n"
    using assms(3) by (cases "ncols t") auto
  let ?found = "t \<lparr> rows := filter (in_bin (minima t) (maxima t) base
            (map (\<lambda>b. perc_overlap s * b) base)
            (map (\<lambda>b. b + perc_overlap s * b * 2) base) c) (rows t) \<rparr>"
  have fe: "find_entries s' t c = Inr ?found"
  proof (rule find_entries_geometry [where n = n])
    show "di s' = Some [1..<Suc n]"
      using g(6) n by simp
  qed (use g l n lc lo hi in simp_all)
  have mem: "r \<in> set (rows ?found)"
    using i assms(7) by simp
  have "\<exists>found. find_entries s' t c = Inr found \<and> r \<in> set (rows found)"
    using fe mem by (intro exI [of _ ?found] conjI)
  with c have "\<exists>c \<in> set (coordinates_of cs).
      \<exists>found. find_entries s' t c = Inr found \<and> r \<in> set (rows found)"
    by (rule bexI [rotated])
  with d show ?thesis
    by blast
qed

text \<open>
  In exact arithmetic, of two objects that differ in \<open>perc_overlap\<close> only, the one with
  the larger overlap returns, for every coordinate, all the rows that the other returns.
\<close>

lemma exact_larger_overlap_more_rows:
  assumes "perc_overlap s \<le> p"
    and "define_bins s t = (s1, ws1, Inr coords)"
    and "define_bins (s \<lparr> perc_overlap := p \<rparr>) t = (s2, ws2, Inr coords2)"
    and "wf_limits s t" "rect t" "2 \<le> ncols t" "c \<in> set coords" "c' \<in> set coords"
  shows "coords2 = coords
    \<and> (\<exists>A1 A2 B1 B2.
          find_entries s1 t c = Inr A1 \<and> find_entries s2 t c = Inr A2
        \<and> find_entries s1 t c' = Inr B1 \<and> find_entries s2 t c' = Inr B2
        \<and> set (rows A1) \<subseteq> set (rows A2) \<and> length (rows A1) \<le> length (rows A2)
        \<and> card (set (rows A1) \<inter> set (rows B1)) \<le> card (set (rows A2) \<inter> set (rows B2)))"
proof -
  let ?s = "s \<lparr> perc_overlap := p \<rparr>"
  let ?k = "ncols t - 1"
  let ?lo = "resolved_lower s t" and ?hi = "resolved_upper s t"
  have w2: "wf_limits ?s t"
    using assms(4) by (simp add: wf_limits_def)
  have same: "resolved_lower ?s t = ?lo" "resolved_upper ?s t = ?hi" "n_cubes ?s = n_cubes s"
      "perc_overlap ?s = p"
    by (simp_all add: resolved_lower_def resolved_upper_def)
  from define_bins_geometry [OF assms(2,4,5)] obtain base cs where
    dv: "divide_cubes (map2 (-) ?hi ?lo) (n_cubes s) = Inr base"
    and l: "length base = ?k"
    and cu: "cubes_of (n_cubes s) ?k = Inr cs"
    and co: "coords = coordinates_of cs"
    and b: "\<forall>j < ?k. cs ! j \<noteq> 0 \<and> base ! j = (?hi ! j - ?lo ! j) / real_of_int (cs ! j)"
    by blast
  from define_bins_geometry [OF assms(3) w2 assms(5)] obtain cs2 where
    "cubes_of (n_cubes s) ?k = Inr cs2" "coords2 = coordinates_of cs2"
    unfolding same by blast
  then have co2: "coords2 = coords"
    using cu co by simp
  have lcs: "length cs = ?k"
    using cu by (rule cubes_of_length)
  have lc: "length x = ?k" "\<forall>j < ?k. 0 < cs ! j" if "x \<in> set coords" for x
    using that lcs unfolding co coordinates_of_iff by force+
  have pos: "\<forall>j < ?k. ?lo ! j \<le> ?hi ! j \<longrightarrow> 0 \<le> base ! j"
  proof (intro allI impI)
    fix j
    assume j: "j < ?k" and "?lo ! j \<le> ?hi ! j"
    moreover have "0 < real_of_int (cs ! j)"
      using lc(2) [OF assms(7)] j by simp
    ultimately have "0 \<le> (?hi ! j - ?lo ! j) / real_of_int (cs ! j)"
      by (intro divide_nonneg_pos) simp_all
    then show "0 \<le> base ! j"
      using b j by simp
  qed
  let ?in1 = "\<lambda>x. in_bin ?lo ?hi base (map (\<lambda>b. perc_overlap s * b) base)
      (map (\<lambda>b. b + perc_overlap s * b * 2) base) x"
  let ?in2 = "\<lambda>x. in_bin ?lo ?hi base (map (\<lambda>b. p * b) base) (map (\<lambda>b. b + p * b * 2) base) x"
  have f1: "find_entries s1 t x = Inr (t \<lparr> rows := filter (?in1 x) (rows t) \<rparr>)"
    if "x \<in> set coords" for x
    using find_entries_defined [OF assms(2,4,5,6) refl lc(1) [OF that]] dv by auto
  have f2: "find_entries s2 t x = Inr (t \<lparr> rows := filter (?in2 x) (rows t) \<rparr>)"
    if "x \<in> set coords" for x
    using find_entries_defined [OF assms(3) w2 assms(5,6) refl lc(1) [OF that]] dv
    unfolding same by auto
  have grow: "?in2 x r" if "x \<in> set coords" "?in1 x r" for x r
  proof (rule in_bin_grows [where k = ?k and ?p1.0 = "perc_overlap s"])
    show "length ?lo = ?k" "length ?hi = ?k"
      using assms(4) by simp_all
  qed (use l lc(1) [OF that(1)] pos assms(1) that(2) in simp_all)
  have m: "set (filter (?in1 x) (rows t)) \<subseteq> set (filter (?in2 x) (rows t))
      \<and> length (filter (?in1 x) (rows t)) \<le> length (filter (?in2 x) (rows t))"
    if "x \<in> set coords" for x
    by (rule subseq_filter_mono) (rule grow [OF that])
  have "card (set (filter (?in1 c) (rows t)) \<inter> set (filter (?in1 c') (rows t)))
      \<le> card (set (filter (?in2 c) (rows t)) \<inter> set (filter (?in2 c') (rows t)))"
    using m [OF assms(7)] m [OF assms(8)] by (intro card_mono) auto
  then show ?thesis
    using co2 f1 [OF assms(7)] f2 [OF assms(7)] f1 [OF assms(8)] f2 [OF assms(8)] m [OF assms(7)]
    by simp
qed

text \<open>
  In exact arithmetic, one cube with an overlap fraction that is not negative, and with
  \<open>limits\<close> that are absent or enclose the data, returns the table as it is.
\<close>

lemma exact_single_cube_whole_table:
  assumes "n_cubes s = IntCubes 1" "0 \<le> perc_overlap s"
    and "wf_limits s t" "rect t" "rows t \<noteq> []" "2 \<le> ncols t"
    and "limits s \<noteq> None \<longrightarrow>
      (\<forall>r \<in> set (rows t). \<forall>j < ncols t - 1.
         resolved_lower s t ! j \<le> r ! Suc j \<and> r ! Suc j \<le> resolved_upper s t ! j)"
  shows "\<exists>s' ws. define_bins s t = (s', ws, Inr [replicate (ncols t - 1) 0])
    \<and> find_entries s' t (replicate (ncols t - 1) 0) = Inr t"
proof -
  let ?k = "ncols t - 1"
  let ?cs = "replicate ?k (1::int)"
  let ?lo = "resolved_lower s t" and ?hi = "resolved_upper s t"
  have cu: "cubes_of (n_cubes s) ?k = Inr ?cs"
    using assms(1) by (simp add: cubes_of_def)
  have z: "0 \<notin> set ?cs"
    by simp
  from define_bins_total [OF assms(4,5,3) cu z] obtain s' ws where
    d: "define_bins s t = (s', ws, Inr [replicate ?k 0])"
    by (auto simp: coordinates_of_ones)
  from define_bins_geometry [OF d assms(3,4)] obtain base cs' where
    g: "d' s' = Some ?lo" "end' s' = Some ?hi"
      "base_dist s' = Some base"
      "overlap_dist s' = Some (map (\<lambda>b. perc_overlap s * b) base)"
      "chunk_dist s' = Some (map (\<lambda>b. b + perc_overlap s * b * 2) base)"
      "di s' = Some [1..<ncols t]"
    and l: "length base = ?k"
    and cs': "cubes_of (n_cubes s) ?k = Inr cs'"
    and b: "\<forall>j < ?k. cs' ! j \<noteq> 0 \<and> base ! j = (?hi ! j - ?lo ! j) / real_of_int (cs' ! j)"
    by blast
  have [simp]: "cs' = ?cs"
    using cs' cu by simp
  have enclosed: "\<forall>j < ?k. ?lo ! j \<le> r ! Suc j \<and> r ! Suc j \<le> ?hi ! j"
    if r: "r \<in> set (rows t)" for r
  proof (cases "limits s")
    case None
    then have "?lo = minima t" "?hi = maxima t"
      by (simp_all add: resolved_lower_def resolved_upper_def)
    then show ?thesis
      using r by (simp add: minima_le maxima_ge)
  next
    case (Some lims)
    then show ?thesis
      using assms(7) r by simp
  qed
  let ?in = "in_bin ?lo ?hi base (map (\<lambda>b. perc_overlap s * b) base)
      (map (\<lambda>b. b + perc_overlap s * b * 2) base) (replicate ?k 0)"
  have every: "?in r" if r: "r \<in> set (rows t)" for r
  proof -
    have "\<exists>c. c \<in> set (coordinates_of ?cs)
        \<and> in_bin ?lo ?hi base (map (\<lambda>b. perc_overlap s * b) base)
            (map (\<lambda>b. b + perc_overlap s * b * 2) base) c r"
    proof (rule row_in_some_bin [where k = ?k])
      show "\<forall>j < ?k. ?lo ! j \<le> r ! Suc j \<and> r ! Suc j \<le> ?hi ! j"
        using r by (rule enclosed)
      show "\<forall>j < ?k. 0 < ?cs ! j \<and> base ! j = (?hi ! j - ?lo ! j) / real_of_int (?cs ! j)"
        using b by simp
    qed (use l assms(2,3) in simp_all)
    then show ?thesis
      by (simp add: coordinates_of_ones)
  qed
  obtain n where n: "ncols t = Suc n" "0 < n"
    using assms(6) by (cases "ncols t") auto
  have "find_entries s' t (replicate ?k 0) = Inr (t \<lparr> rows := filter ?in (rows t) \<rparr>)"
  proof (rule find_entries_geometry [where n = n])
    show "di s' = Some [1..<Suc n]"
      using g(6) n by simp
  qed (use g l n assms(3) in simp_all)
  moreover have "filter ?in (rows t) = rows t"
    using every by (simp add: filter_id_conv)
  ultimately have "find_entries s' t (replicate ?k 0) = Inr t"
    by simp
  with d show ?thesis
    by blast
qed

section \<open>The claims\<close>

subsection \<open>C1\<close>

text \<open>
  C1. On the geometry that \<open>define_bins\<close> stores for a table with at least one lens
  column, \<open>find_entries\<close> returns, for a coordinate with one index for every dimension and a
  table of the same columns, the table with exactly the rows that lie in the bin: on every
  dimension the lens coordinate is at or above the clipped lower bound and at or below the
  clipped upper bound. The rows are whole rows, identifier included, in their order.
\<close>

theorem find_entries_rows:
  assumes "define_bins s t = (s', ws, Inr coords)" "wf_limits s t" "rect t"
    and "2 \<le> ncols t" "ncols q = ncols t" "length cube = ncols t - 1"
  shows "\<exists>lo hi base overlap chunk.
      d' s' = Some lo \<and> end' s' = Some hi \<and> base_dist s' = Some base
    \<and> overlap_dist s' = Some overlap \<and> chunk_dist s' = Some chunk
    \<and> find_entries s' q cube =
        Inr (q \<lparr> rows := filter (in_bin lo hi base overlap chunk cube) (rows q) \<rparr>)"
proof -
  from define_bins_geometry [OF assms(1-3)] obtain base where
    g: "d' s' = Some (resolved_lower s t)" "end' s' = Some (resolved_upper s t)"
      "base_dist s' = Some base"
      "overlap_dist s' = Some (map (\<lambda>b. perc_overlap s * b) base)"
      "chunk_dist s' = Some (map (\<lambda>b. b + perc_overlap s * b * 2) base)"
      "di s' = Some [1..<ncols t]"
    and l: "length base = ncols t - 1"
    by blast
  obtain n where n: "ncols t = Suc n" "0 < n"
    using assms(4) by (cases "ncols t") auto
  have "find_entries s' q cube =
      Inr (q \<lparr> rows := filter (in_bin (resolved_lower s t) (resolved_upper s t) base
            (map (\<lambda>b. perc_overlap s * b) base)
            (map (\<lambda>b. b + perc_overlap s * b * 2) base) cube) (rows q) \<rparr>)"
  proof (rule find_entries_geometry [where n = n])
    show "di s' = Some [1..<Suc n]"
      using g(6) n by simp
  qed (use g l n assms in simp_all)
  with g show ?thesis
    by blast
qed

theorem find_entries_rows_witness:
  "find_entries line_bins line_table [0] = Inr (line_table \<lparr> rows := [[0, 0], [2, 1 / 2]] \<rparr>)
   \<and> find_entries line_bins line_table [1] = Inr (line_table \<lparr> rows := [[1, 1], [2, 1 / 2]] \<rparr>)"
proof -
  have h: "wf_limits line_cover line_table" "rect line_table" "2 \<le> ncols line_table"
    by (simp_all add: wf_limits_def line_cover_def new_cover_def line_table_def rect_def)
  have e: "in_bin [0] [1] [1 / 2] [1 / 4] [1] [c] r =
      (clip (real_of_int c / 2 - 1 / 4) 0 1 \<le> r ! 1 \<and> r ! 1 \<le> clip (real_of_int c / 2 - 1 / 4 + 1) 0 1)"
    for c r
    by (simp add: in_bin_def clipped_lower_def clipped_upper_def)
  have "find_entries line_bins line_table [c] =
      Inr (line_table \<lparr> rows := filter (in_bin [0] [1] [1 / 2] [1 / 4] [1] [c]) (rows line_table) \<rparr>)"
    for c
    using find_entries_rows [OF line_define_bins h(1,2,3), of line_table "[c]"]
    by (simp add: line_bins_def line_table_def)
  then show ?thesis
    by (simp add: e line_table_def clip_def)
qed

subsection \<open>C2\<close>



subsection \<open>C4\<close>

text \<open>
  C4. The second call of \<open>define_bins\<close> on the same table does not repeat the first when
  \<open>limits\<close> holds a marker: the first call overwrites the marker in \<open>self.limits\<close> with 0,
  so the second takes 0 for the upper bound where the first took the data's maximum.
\<close>

theorem define_bins_twice_differs:
  "define_bins marker_cover marker_table = (marker_first, [], Inr [[0], [1]])
   \<and> define_bins marker_first marker_table = (marker_second, [], Inr [[0], [1]])
   \<and> end' marker_first = Some [9 / 10] \<and> end' marker_second = Some [0]
   \<and> base_dist marker_first = Some [9 / 20] \<and> base_dist marker_second = Some [0]"
  by (simp add: marker_cover_def marker_table_def marker_first_def marker_second_def
      eval_defs eval_nat_numeral)

subsection \<open>C6\<close>

text \<open>
  C6. With \<open>limits\<close> of one pair for every lens dimension, \<open>define_bins\<close> emits the
  warning exactly when some minimum of the data lies below its resolved lower bound and,
  at the same time, some maximum lies above its resolved upper bound: the source joins the
  two tests of lines 126 and 127 with \<open>or\<close> and negates the result. Bounds that fail to
  enclose the data on one side only raise no warning.
\<close>

theorem coverage_warning_condition:
  assumes "limits s = Some lims" "length lims = ncols t - 1" "rect t" "rows t \<noteq> []"
    and "define_bins s t = (s', ws, r)"
  shows "(ws \<noteq> []) =
    ((\<exists>j < ncols t - 1. minima t ! j < resolved_lower s t ! j)
     \<and> (\<exists>j < ncols t - 1. resolved_upper s t ! j < maxima t ! j))"
proof -
  let ?lo = "map2 resolve (map fst lims) (minima t)"
  let ?hi = "map2 resolve (map snd lims) (maxima t)"
  have r: "resolved_lower s t = ?lo" "resolved_upper s t = ?hi"
    using assms(1) by (simp_all add: resolved_lower_def resolved_upper_def resolve_eq [abs_def])
  have l: "length ?lo = ncols t - 1" "length ?hi = ncols t - 1"
    using assms(2) by simp_all
  have a: "list_all2 (\<ge>) (minima t) ?lo = (\<forall>j < ncols t - 1. ?lo ! j \<le> minima t ! j)"
    using l(1) by (simp add: list_all2_conv_all_nth del: length_map length_zip)
  have b: "list_all2 (\<le>) (maxima t) ?hi = (\<forall>j < ncols t - 1. maxima t ! j \<le> ?hi ! j)"
    using l(2) by (simp add: list_all2_conv_all_nth del: length_map length_zip)
  from bounds_of_Some [OF assms(1-4)] have
    "ws = (if \<not> (list_all2 (\<ge>) (minima t) ?lo \<or> list_all2 (\<le>) (maxima t) ?hi)
           then [CoverageWarning (minima t) ?lo (maxima t) ?hi] else [])"
    using define_bins_warnings [of s t] assms(5) by simp
  then have "(ws \<noteq> []) = (\<not> (list_all2 (\<ge>) (minima t) ?lo \<or> list_all2 (\<le>) (maxima t) ?hi))"
    by simp
  also have "\<dots> = ((\<exists>j < ncols t - 1. minima t ! j < ?lo ! j) \<and> (\<exists>j < ncols t - 1. ?hi ! j < maxima t ! j))"
    unfolding a b by (auto simp: not_le)
  finally show ?thesis
    unfolding r .
qed

text \<open>
  \<open>limits\<close> from a half to 2 on a table whose lens values are 0 and 1: the minimum lies
  below the lower bound, the maximum does not lie above the upper one, and the list of
  warnings is empty. The bounds stored are the configured ones.
\<close>

theorem coverage_warning_condition_witness:
  "define_bins low_cover narrow_table = (low_bins, [], Inr [[0], [1]])
   \<and> minima narrow_table ! 0 < resolved_lower low_cover narrow_table ! 0
   \<and> \<not> resolved_upper low_cover narrow_table ! 0 < maxima narrow_table ! 0"
proof -
  have d: "define_bins low_cover narrow_table = (low_bins, [], Inr [[0], [1]])"
    by (simp add: low_cover_def narrow_table_def low_bins_def eval_defs eval_nat_numeral)
  have h: "limits low_cover = Some [(Val (1 / 2), Val 2)]"
      "length [(Val (1 / 2), Val 2)] = ncols narrow_table - 1" "rect narrow_table"
      "rows narrow_table \<noteq> []"
    by (simp_all add: low_cover_def new_cover_def narrow_table_def rect_def)
  have m: "minima narrow_table ! 0 < resolved_lower low_cover narrow_table ! 0"
    by (simp add: minima_def resolved_lower_def low_cover_def new_cover_def narrow_table_def column_def)
  from coverage_warning_condition [OF h d] m
  have "\<not> resolved_upper low_cover narrow_table ! 0 < maxima narrow_table ! 0"
    by (auto simp: narrow_table_def)
  with d m show ?thesis
    by blast
qed

subsection \<open>C7\<close>




subsection \<open>C8\<close>

text \<open>
  C8. With a list of cube counts whose length is not the number of lens columns,
  \<open>define_bins\<close> always raises, but not as the assertion of lines 163 to 167 intends.
  Whenever that assertion is the error, the geometry has been stored in the object before
  (lines 141 to 158 run first). And when neither length is 1 (here without \<open>limits\<close>), the
  division of line 141 cannot broadcast: the error is numpy's ValueError, the assertion is
  not reached and the object keeps the geometry it had.
\<close>

theorem cube_count_mismatch:
  assumes "n_cubes s = ListCubes ns" "length ns \<noteq> ncols t - 1"
    and "define_bins s t = (s', ws, r)"
  shows "(\<exists>e. r = Inl e)
    \<and> (r = Inl (AssertionError (length ns) (ncols t - 1)) \<longrightarrow> base_dist s' \<noteq> None)
    \<and> (length ns \<noteq> 1 \<and> ncols t - 1 \<noteq> 1 \<and> limits s = None
          \<longrightarrow> r = Inl ValueError \<and> base_dist s' = base_dist s)"
proof (cases "bounds_of s t")
  case (Inl e)
  then have "r = Inl e" "s' = s"
    using assms(3) by (simp_all add: define_bins_def)
  moreover have "e = ValueError"
    using Inl by (auto simp: bounds_of_def np_min_def np_max_def assign_column_def Let_def
        split: sum.splits option.splits if_splits)
  ultimately show ?thesis
    by simp
next
  case (Inr b)
  then obtain s1 ws1 lo hi where b: "bounds_of s t = Inr (s1, ws1, lo, hi)"
    by (cases b) auto
  from bounds_of_frame [OF b] have n: "n_cubes s1 = ListCubes ns" and bd: "base_dist s1 = base_dist s"
    using assms(1) by simp_all
  show ?thesis
  proof (cases "divide_cubes (map2 (-) hi lo) (n_cubes s1)")
    case (Inl e)
    then have r: "r = Inl e" "s' = s1"
      using assms(3) b by (simp_all add: define_bins_def)
    have "e = ValueError \<or> e = NonFinite"
      using Inl n by (auto simp: divide_cubes_def bshape_def split: if_splits)
    then have "e \<noteq> AssertionError (length ns) (ncols t - 1)"
      by auto
    moreover have "e = ValueError" if "length ns \<noteq> 1" "ncols t - 1 \<noteq> 1" "limits s = None"
    proof -
      have "length lo = ncols t - 1 \<and> length hi = ncols t - 1"
        using b that(3) by (auto simp: bounds_of_def np_min_def np_max_def Let_def split: if_splits)
      then have "bshape (length (map2 (-) hi lo)) (length ns) = Inl ValueError"
        using that assms(2) by (simp add: bshape_def)
      then show ?thesis
        using Inl n by (simp add: divide_cubes_def)
    qed
    ultimately show ?thesis
      using r bd by auto
  next
    case (Inr base)
    have c: "cubes_of (n_cubes s1) (length [1..<ncols t]) = Inl (AssertionError (length ns) (ncols t - 1))"
      using n assms(2) by (simp add: cubes_of_def)
    from assms(3) b Inr c have r: "r = Inl (AssertionError (length ns) (ncols t - 1))"
        "base_dist s' = Some base"
      by (auto simp: define_bins_def Let_def)
    have "\<not> (length ns \<noteq> 1 \<and> ncols t - 1 \<noteq> 1 \<and> limits s = None)"
    proof
      assume a: "length ns \<noteq> 1 \<and> ncols t - 1 \<noteq> 1 \<and> limits s = None"
      have "length lo = ncols t - 1 \<and> length hi = ncols t - 1"
        using b a by (auto simp: bounds_of_def np_min_def np_max_def Let_def split: if_splits)
      then have "bshape (length (map2 (-) hi lo)) (length ns) = Inl ValueError"
        using a assms(2) by (simp add: bshape_def)
      then show False
        using Inr n by (simp add: divide_cubes_def)
    qed
    with r show ?thesis
      by simp
  qed
qed

text \<open>
  Three cube counts on two lens columns and on one lens column.
\<close>

theorem cube_count_mismatch_witness:
  "define_bins three_cover grid_table = (three_cover, [], Inl ValueError)
   \<and> define_bins three_cover narrow_table = (three_bins, [], Inl (AssertionError 3 1))
   \<and> base_dist three_bins = Some [1 / 2, 1 / 3, 1 / 4]"
proof -
  have a: "define_bins three_cover grid_table = (three_cover, [], Inl ValueError)"
    by (simp add: three_cover_def grid_table_def eval_defs eval_nat_numeral)
  have b: "define_bins three_cover narrow_table = (three_bins, [], Inl (AssertionError 3 1))"
    by (simp add: three_cover_def narrow_table_def three_bins_def eval_defs eval_nat_numeral)
  have n: "n_cubes three_cover = ListCubes [2, 3, 4]" "length [2, 3, 4 :: int] \<noteq> ncols narrow_table - 1"
    by (simp_all add: three_cover_def new_cover_def narrow_table_def)
  from cube_count_mismatch [OF n b] have "base_dist three_bins \<noteq> None"
    by (simp add: narrow_table_def)
  then have "base_dist three_bins = Some [1 / 2, 1 / 3, 1 / 4]"
    by (simp add: three_bins_def)
  with a b show ?thesis
    by blast
qed

subsection \<open>C9\<close>

text \<open>
  C9. What \<open>__init__\<close> stores when legacy parameters are given: the warning is emitted,
  and a legacy value is stored unless Python takes it for false. With \<open>overlap_perc = 0\<close>
  (or \<open>nr_cubes = 0\<close>, or an empty list) the object keeps the value of the canonical
  parameter.
\<close>

theorem legacy_values_stored:
  assumes "init n p l nr_cubes0 overlap_perc0 = (ws, Inr s)"
  shows "(overlap_perc0 \<noteq> None \<or> nr_cubes0 \<noteq> None \<longrightarrow> ws = [DeprecationWarning])
    \<and> (\<forall>q. overlap_perc0 = Some q \<longrightarrow> perc_overlap s = (if q = 0 then p else q))
    \<and> (\<forall>c. nr_cubes0 = Some c \<longrightarrow> n_cubes s = (if truthy c then c else n))"
  using assms by (auto simp: init_def Let_def new_cover_def split: if_splits)

theorem legacy_values_stored_witness:
  "init default_n_cubes default_perc_overlap None None (Some 0)
     = ([DeprecationWarning], Inr (new_cover (IntCubes 10) (2 / 10) None))
   \<and> perc_overlap (new_cover (IntCubes 10) (2 / 10) None) = default_perc_overlap
   \<and> default_perc_overlap \<noteq> 0"
proof -
  have i: "init default_n_cubes default_perc_overlap None None (Some 0)
      = ([DeprecationWarning], Inr (new_cover (IntCubes 10) (2 / 10) None))"
    by (simp add: init_def default_n_cubes_def default_perc_overlap_def)
  from legacy_values_stored [OF i] have
    "perc_overlap (new_cover (IntCubes 10) (2 / 10) None) = default_perc_overlap"
    by simp
  with i show ?thesis
    by (simp add: default_perc_overlap_def)
qed

subsection \<open>C10\<close>

text \<open>
  C10. The object that \<open>__init__\<close> returns has none of the six attributes that
  \<open>find_entries\<close> reads, and \<open>find_entries\<close> on it raises AttributeError whatever the table
  and the coordinate. After a call of \<open>define_bins\<close> that returned, the attributes exist
  and \<open>find_entries\<close> does not raise AttributeError.
\<close>

theorem find_entries_needs_define_bins:
  assumes "init n p l nr_cubes0 overlap_perc0 = (ws, Inr s)"
  shows "base_dist s = None \<and> overlap_dist s = None \<and> chunk_dist s = None
    \<and> d' s = None \<and> end' s = None \<and> di s = None
    \<and> find_entries s data cube = Inl AttributeError
    \<and> (\<forall>s' ws' coords. define_bins s data = (s', ws', Inr coords)
          \<longrightarrow> find_entries s' data cube \<noteq> Inl AttributeError)"
proof -
  obtain n' p' where "s = new_cover n' p' l"
    using assms by (auto simp: init_def Let_def split: if_splits)
  then have f: "base_dist s = None" "overlap_dist s = None" "chunk_dist s = None"
      "d' s = None" "end' s = None" "di s = None"
    by (simp_all add: new_cover_def)
  have a: "find_entries s data cube = Inl AttributeError"
    by (simp add: find_entries_def f)
  have "find_entries s' data cube \<noteq> Inl AttributeError"
    if "define_bins s data = (s', ws', Inr coords)" for s' ws' coords
  proof (rule find_entries_no_attribute_error)
    from that obtain s1 lo hi base where
      "s' = s1 \<lparr> base_dist := Some base,
          overlap_dist := Some (map (\<lambda>b. perc_overlap s1 * b) base),
          chunk_dist := Some (map2 (\<lambda>b ov. b + ov * 2) base (map (\<lambda>b. perc_overlap s1 * b) base)),
          d' := Some lo, end' := Some hi,
          di := Some [1..<ncols data], nr_dimensions := Some (ncols data - 1) \<rparr>"
      by (rule define_bins_Inr)
    then show "base_dist s' \<noteq> None" "overlap_dist s' \<noteq> None" "chunk_dist s' \<noteq> None"
        "d' s' \<noteq> None" "end' s' \<noteq> None" "di s' \<noteq> None"
      by simp_all
  qed
  with f a show ?thesis
    by blast
qed

theorem find_entries_needs_define_bins_witness:
  "find_entries line_cover line_table [0] = Inl AttributeError
   \<and> find_entries line_bins line_table [0] \<noteq> Inl AttributeError"
proof -
  have i: "init (IntCubes 2) (1 / 2) None None None = ([], Inr line_cover)"
    by (simp add: init_def line_cover_def)
  from find_entries_needs_define_bins [OF i, of line_table "[0]"] line_define_bins
  show ?thesis
    by blast
qed

end
